theory Spec2Isabelle
  imports Complex_Main "HOL-Library.Multiset"
begin

section \<open>Python values used by the display program\<close>

text \<open>
  The program is \<^verbatim>\<open>spotify_lyrics_matrix.py\<close>. Its integers are Python's unbounded
  integers (\<^typ>\<open>int\<close>). Its floats (lyric timestamps, wall-clock seconds, scroll speeds)
  are modelled as \<^typ>\<open>real\<close>: comparisons are exact, arithmetic is exact, and the
  special values \<^verbatim>\<open>inf\<close> and \<^verbatim>\<open>nan\<close> have no counterpart. Strings are
  \<^typ>\<open>string\<close>, one \<^typ>\<open>char\<close> per code point below 256.
  Every exception the modelled code can raise is a value of \<open>py_error\<close>.
\<close>

datatype py_error = IndexError | ZeroDivisionError | TypeError | ValueError | QueueEmpty | QueueFull

definition getitem :: "'a list \<Rightarrow> int \<Rightarrow> py_error + 'a" where
  \<comment> \<open>\<^verbatim>\<open>xs[i]\<close>: a negative index counts from the end, out of range raises.\<close>
  "getitem xs i =
     (if 0 \<le> i \<and> i < int (length xs) then Inr (xs ! nat i)
      else if i < 0 \<and> - int (length xs) \<le> i then Inr (xs ! nat (int (length xs) + i))
      else Inl IndexError)"


definition py_trunc :: "real \<Rightarrow> int" where
  \<comment> \<open>\<^verbatim>\<open>int(x)\<close> on a float: rounds toward zero.\<close>
  "py_trunc x = (if 0 \<le> x then \<lfloor>x\<rfloor> else \<lceil>x\<rceil>)"

subsection \<open>String methods\<close>






fun split :: "char \<Rightarrow> string \<Rightarrow> string list" where
  \<comment> \<open>\<^verbatim>\<open>s.split(sep)\<close> for a separator of one character: never the empty list.\<close>
  "split sep [] = [[]]"
| "split sep (c # cs) =
     (if c = sep then [] # split sep cs
      else (case split sep cs of
              [] \<Rightarrow> [[c]]
            | p # ps \<Rightarrow> (c # p) # ps))"


section \<open>Lyric timeline\<close>

record LyricLine =
  t :: real
  text' :: string

subsection \<open>\<^verbatim>\<open>parse_lrc\<close>\<close>






subsection \<open>Decimal literals\<close>





subsection \<open>Lines of a lyric text\<close>








subsection \<open>\<^verbatim>\<open>current_line_index\<close>\<close>

function current_line_index_loop ::
  "LyricLine list \<Rightarrow> real \<Rightarrow> int \<Rightarrow> int \<Rightarrow> int \<Rightarrow> py_error + int" where
  \<comment> \<open>\<^verbatim>\<open>while lo <= hi\<close>, with \<^verbatim>\<open>mid = (lo + hi) // 2\<close>\<close>
  "current_line_index_loop lrc q lo hi ans =
     (if lo \<le> hi then
        (case getitem lrc ((lo + hi) div 2) of
           Inl e \<Rightarrow> Inl e
         | Inr l \<Rightarrow>
             if t l \<le> q
             then current_line_index_loop lrc q ((lo + hi) div 2 + 1) hi ((lo + hi) div 2)
             else current_line_index_loop lrc q lo ((lo + hi) div 2 - 1) ans)
      else Inr ans)"
  by pat_completeness auto
termination
  by (relation "measure (\<lambda>(lrc, q, lo, hi, ans). nat (hi - lo + 1))") auto

declare current_line_index_loop.simps [simp del]

definition current_line_index :: "LyricLine list \<Rightarrow> real \<Rightarrow> py_error + int" where
  "current_line_index lrc q =
     (if lrc = [] then Inr (- 1)
      else current_line_index_loop lrc q 0 (int (length lrc) - 1) (- 1))"

definition synced_line_now :: "LyricLine list \<Rightarrow> string \<Rightarrow> real \<Rightarrow> py_error + string" where
  \<comment> \<open>The coordinator's branch \<^verbatim>\<open>if cur_assets.lrc\<close>: the line at \<open>idx\<close>, or the artists.\<close>
  "synced_line_now lrc artists t_sec =
     (case current_line_index lrc t_sec of
        Inl e \<Rightarrow> Inl e
      | Inr idx \<Rightarrow>
          if 0 \<le> idx
          then (case getitem lrc idx of Inl e \<Rightarrow> Inl e | Inr l \<Rightarrow> Inr (text' l))
          else Inr artists)"

section \<open>Marquee\<close>



section \<open>Queues between the threads\<close>

record 'a queue =
  items :: "'a list"
  maxsize :: int

definition get_nowait :: "'a queue \<Rightarrow> py_error + ('a \<times> 'a queue)" where
  "get_nowait q =
     (case items q of
        [] \<Rightarrow> Inl QueueEmpty
      | x # xs \<Rightarrow> Inr (x, q\<lparr>items := xs\<rparr>))"

definition put_nowait :: "'a queue \<Rightarrow> 'a \<Rightarrow> py_error + 'a queue" where
  \<comment> \<open>A queue of \<open>maxsize \<le> 0\<close> is unbounded.\<close>
  "put_nowait q v =
     (if 0 < maxsize q \<and> maxsize q \<le> int (length (items q)) then Inl QueueFull
      else Inr (q\<lparr>items := items q @ [v]\<rparr>))"

function drain :: "'a queue \<Rightarrow> 'a queue" where
  \<comment> \<open>\<^verbatim>\<open>while True: q.get_nowait()\<close>, left by \<^verbatim>\<open>queue.Empty\<close>\<close>
  "drain q = (case get_nowait q of Inl e \<Rightarrow> q | Inr (x, q') \<Rightarrow> drain q')"
  by pat_completeness auto
termination
  by (relation "measure (\<lambda>q. length (items q))")
    (auto simp: get_nowait_def split: list.splits)

declare drain.simps [simp del]

definition Poller_publish :: "'a queue \<Rightarrow> 'a \<Rightarrow> 'a queue" where
  \<comment> \<open>\<^verbatim>\<open>Poller.run\<close>: a \<^verbatim>\<open>queue.Full\<close> of \<^verbatim>\<open>put_nowait\<close> is swallowed by the outer handler.\<close>
  "Poller_publish out_q snap =
     (let q = drain out_q in case put_nowait q snap of Inl e \<Rightarrow> q | Inr q' \<Rightarrow> q')"

definition Fetcher_publish :: "'a queue \<Rightarrow> 'a \<Rightarrow> 'a queue" where
  \<comment> \<open>\<^verbatim>\<open>Fetcher.run\<close>: \<^verbatim>\<open>except queue.Full: pass\<close>\<close>
  "Fetcher_publish out_q assets =
     (let q = drain out_q in case put_nowait q assets of Inl e \<Rightarrow> q | Inr q' \<Rightarrow> q')"

section \<open>Playback snapshots and the coordinator\<close>

datatype json_width = WidthInt int | WidthNull | WidthAbsent

record image =
  width :: json_width
  url :: "string option"

record track =
  id' :: "string option"
  name :: string
  artists :: "string list"
  images :: "image list"

record PlaybackSnapshot =
  item :: "track option"
  is_playing :: bool
  progress_ms :: int
  ts :: real

record playback =
  pb_item :: "track option"
  pb_is_playing :: bool
  pb_progress_ms :: "int option"

definition Poller_snapshot :: "playback option \<Rightarrow> real \<Rightarrow> PlaybackSnapshot" where
  \<comment> \<open>The snapshot \<^verbatim>\<open>Poller.run\<close> builds from the answer \<open>pb\<close> read at time \<open>now\<close>;
      \<open>None\<close> stands for a missing, null or empty value.\<close>
  "Poller_snapshot pb now =
     (case pb of
        None \<Rightarrow> \<lparr>item = None, is_playing = False, progress_ms = 0, ts = now\<rparr>
      | Some p \<Rightarrow>
          (case pb_item p of
             None \<Rightarrow> \<lparr>item = None, is_playing = False, progress_ms = 0, ts = now\<rparr>
           | Some it \<Rightarrow>
               \<lparr>item = Some it, is_playing = pb_is_playing p,
                progress_ms = (case pb_progress_ms p of None \<Rightarrow> 0 | Some n \<Rightarrow> n),
                ts = now\<rparr>))"

definition progress_now :: "PlaybackSnapshot \<Rightarrow> real \<Rightarrow> int" where
  \<comment> \<open>\<^verbatim>\<open>progress_ms\<close> of the main loop, \<open>now\<close> being \<^verbatim>\<open>time.time()\<close>.\<close>
  "progress_now last_snapshot now =
     (if item last_snapshot \<noteq> None \<and> is_playing last_snapshot
      then progress_ms last_snapshot + py_trunc ((now - ts last_snapshot) * 1000)
      else if item last_snapshot \<noteq> None then progress_ms last_snapshot else 0)"

record coordinator =
  last_seen_tid :: "string option"
  req_q :: "track queue"

definition truthy :: "string option \<Rightarrow> bool" where
  \<comment> \<open>\<^verbatim>\<open>if tid\<close>: neither \<^verbatim>\<open>None\<close> nor the empty string.\<close>
  "truthy s = (case s of None \<Rightarrow> False | Some v \<Rightarrow> v \<noteq> [])"

definition snapshot_tid :: "PlaybackSnapshot \<Rightarrow> string option" where
  \<comment> \<open>\<^verbatim>\<open>tid = (item.get("id") if item else None)\<close>\<close>
  "snapshot_tid snap = (case item snap of None \<Rightarrow> None | Some it \<Rightarrow> id' it)"

definition track_change :: "PlaybackSnapshot \<Rightarrow> coordinator \<Rightarrow> track option \<times> coordinator" where
  \<comment> \<open>The track-change step of one iteration: the request it enqueues, if any, and the
      coordinator's state after it.\<close>
  "track_change snap c =
     (case item snap of
        None \<Rightarrow> (None, c)
      | Some it \<Rightarrow>
          if truthy (id' it) \<and> id' it \<noteq> last_seen_tid c
          then
            (let q = drain (req_q c)
             in (Some it,
                 c\<lparr>last_seen_tid := id' it,
                   req_q := (case put_nowait q it of Inl e \<Rightarrow> q | Inr q' \<Rightarrow> q')\<rparr>))
          else (None, c))"

primrec run_snapshots ::
  "PlaybackSnapshot list \<Rightarrow> coordinator \<Rightarrow> track option list \<times> coordinator" where
  \<comment> \<open>The track-change steps of successive iterations, one snapshot each.\<close>
  "run_snapshots [] c = ([], c)"
| "run_snapshots (snap # snaps) c =
     (case track_change snap c of
        (r, c') \<Rightarrow> (case run_snapshots snaps c' of (rs, c'') \<Rightarrow> (r # rs, c'')))"

section \<open>Album image of the fetcher\<close>

definition width_distance :: "int \<Rightarrow> image \<Rightarrow> py_error + int" where
  \<comment> \<open>\<^verbatim>\<open>abs(int(im.get("width", 64)) - target)\<close>: \<^verbatim>\<open>int(None)\<close> raises.\<close>
  "width_distance target im =
     (case width im of
        WidthInt w \<Rightarrow> Inr \<bar>w - target\<bar>
      | WidthNull \<Rightarrow> Inl TypeError
      | WidthAbsent \<Rightarrow> Inr \<bar>64 - target\<bar>)"

primrec min_loop :: "('a \<Rightarrow> py_error + int) \<Rightarrow> 'a list \<Rightarrow> 'a \<Rightarrow> int \<Rightarrow> py_error + 'a" where
  "min_loop key [] best bk = Inr best"
| "min_loop key (y # ys) best bk =
     (case key y of
        Inl e \<Rightarrow> Inl e
      | Inr k \<Rightarrow> if k < bk then min_loop key ys y k else min_loop key ys best bk)"

definition py_min :: "('a \<Rightarrow> py_error + int) \<Rightarrow> 'a list \<Rightarrow> py_error + 'a" where
  \<comment> \<open>\<^verbatim>\<open>min(xs, key=key)\<close>: the first element of least key; an exception of \<open>key\<close> ends it.\<close>
  "py_min key xs =
     (case xs of
        [] \<Rightarrow> Inl ValueError
      | x # ys \<Rightarrow> (case key x of Inl e \<Rightarrow> Inl e | Inr k \<Rightarrow> min_loop key ys x k))"

definition width_or_default :: "image \<Rightarrow> int" where
  \<comment> \<open>\<^verbatim>\<open>im.get("width", 64)\<close> of a variant whose width is an integer or absent.\<close>
  "width_or_default im = (case width im of WidthInt w \<Rightarrow> w | _ \<Rightarrow> 64)"

definition Fetcher_image :: "int \<Rightarrow> image list \<Rightarrow> py_error + image option" where
  \<comment> \<open>The variant whose \<^verbatim>\<open>url\<close> \<^verbatim>\<open>Fetcher.run\<close> takes; \<open>None\<close> when there are no images.\<close>
  "Fetcher_image album_side imgs =
     (if imgs = [] then Inr None
      else
        (case py_min (width_distance (max 32 album_side)) imgs of
           Inr im \<Rightarrow> Inr (Some im)
         | Inl e \<Rightarrow> (case getitem imgs (- 1) of Inl e' \<Rightarrow> Inl e' | Inr im \<Rightarrow> Inr (Some im))))"

section \<open>The binary search of the timeline\<close>

lemma getitem_in_range:
  "0 \<le> i \<Longrightarrow> i < int (length xs) \<Longrightarrow> getitem xs i = Inr (xs ! nat i)"
  by (simp add: getitem_def)

text \<open>
  Whatever the order of the entries, the loop keeps \<open>lo\<close> and \<open>hi\<close> inside the list, so the
  read at \<open>mid\<close> never raises and the answer is \<open>- 1\<close> or an index of the list.
\<close>

lemma current_line_index_loop_range:
  "0 \<le> lo \<Longrightarrow> hi < int (length lrc) \<Longrightarrow> - 1 \<le> ans \<Longrightarrow> ans < int (length lrc) \<Longrightarrow>
   \<exists>r. current_line_index_loop lrc q lo hi ans = Inr r \<and> - 1 \<le> r \<and> r < int (length lrc)"
proof (induction lrc q lo hi ans rule: current_line_index_loop.induct)
  case (1 lrc q lo hi ans)
  show ?case
  proof (cases "lo \<le> hi")
    case False
    with "1.prems" show ?thesis
      by (simp add: current_line_index_loop.simps)
  next
    case True
    define mid where "mid = (lo + hi) div 2"
    have mid: "lo \<le> mid" "mid \<le> hi"
      using True by (simp_all add: mid_def)
    have g: "getitem lrc mid = Inr (lrc ! nat mid)"
      using mid "1.prems" by (intro getitem_in_range) auto
    show ?thesis
    proof (cases "t (lrc ! nat mid) \<le> q")
      case le: True
      have "\<exists>r. current_line_index_loop lrc q (mid + 1) hi mid = Inr r \<and> - 1 \<le> r \<and> r < int (length lrc)"
        using "1.IH"(1)[OF True g[unfolded mid_def] le[unfolded mid_def]] mid "1.prems"
        by (simp add: mid_def)
      then show ?thesis
        using True g le by (subst current_line_index_loop.simps) (simp add: mid_def)
    next
      case gt: False
      have "\<exists>r. current_line_index_loop lrc q lo (mid - 1) ans = Inr r \<and> - 1 \<le> r \<and> r < int (length lrc)"
        using "1.IH"(2)[OF True g[unfolded mid_def] gt[unfolded mid_def]] mid "1.prems"
        by (simp add: mid_def)
      then show ?thesis
        using True g gt by (subst current_line_index_loop.simps) (simp add: mid_def)
    qed
  qed
qed

text \<open>
  On a sorted timeline the loop keeps every entry left of \<open>lo\<close> at or before \<open>q\<close>, every
  entry right of \<open>hi\<close> after \<open>q\<close>, and \<open>ans = lo - 1\<close>.
\<close>

lemma current_line_index_loop_sorted:
  "sorted (map t lrc) \<Longrightarrow> 0 \<le> lo \<Longrightarrow> hi < int (length lrc) \<Longrightarrow> lo \<le> hi + 1 \<Longrightarrow> ans = lo - 1 \<Longrightarrow>
   (\<forall>i. int i < lo \<longrightarrow> t (lrc ! i) \<le> q) \<Longrightarrow>
   (\<forall>i. hi < int i \<and> i < length lrc \<longrightarrow> \<not> t (lrc ! i) \<le> q) \<Longrightarrow>
   \<exists>r. current_line_index_loop lrc q lo hi ans = Inr r \<and> - 1 \<le> r \<and> r < int (length lrc) \<and>
       (\<forall>i < length lrc. t (lrc ! i) \<le> q \<longleftrightarrow> int i \<le> r)"
proof (induction lrc q lo hi ans rule: current_line_index_loop.induct)
  case (1 lrc q lo hi ans)
  note srt = \<open>sorted (map t lrc)\<close>
  have mono: "t (lrc ! i) \<le> t (lrc ! j)" if "i \<le> j" "j < length lrc" for i j
    using srt that by (simp add: sorted_iff_nth_mono)
  show ?case
  proof (cases "lo \<le> hi")
    case False
    with "1.prems" have eq: "hi = lo - 1" by simp
    have "\<forall>i < length lrc. t (lrc ! i) \<le> q \<longleftrightarrow> int i \<le> ans"
    proof (intro allI impI)
      fix i assume i: "i < length lrc"
      show "t (lrc ! i) \<le> q \<longleftrightarrow> int i \<le> ans"
      proof (cases "int i < lo")
        case True
        with "1.prems" show ?thesis by simp
      next
        case False
        then have "hi < int i \<and> i < length lrc" using eq i by simp
        with "1.prems" have "\<not> t (lrc ! i) \<le> q" by blast
        with False "1.prems" show ?thesis by simp
      qed
    qed
    with False "1.prems" show ?thesis
      by (simp add: current_line_index_loop.simps)
  next
    case True
    define mid where "mid = (lo + hi) div 2"
    have mid: "lo \<le> mid" "mid \<le> hi"
      using True by (simp_all add: mid_def)
    have g: "getitem lrc mid = Inr (lrc ! nat mid)"
      using mid "1.prems" by (intro getitem_in_range) auto
    show ?thesis
    proof (cases "t (lrc ! nat mid) \<le> q")
      case le: True
      have below: "\<forall>i. int i < mid + 1 \<longrightarrow> t (lrc ! i) \<le> q"
      proof (intro allI impI)
        fix i assume "int i < mid + 1"
        then have "i \<le> nat mid" by linarith
        moreover have "nat mid < length lrc" using mid "1.prems" by simp
        ultimately have "t (lrc ! i) \<le> t (lrc ! nat mid)" by (rule mono)
        with le show "t (lrc ! i) \<le> q" by simp
      qed
      have "\<exists>r. current_line_index_loop lrc q (mid + 1) hi mid = Inr r \<and> - 1 \<le> r \<and> r < int (length lrc) \<and>
              (\<forall>i < length lrc. t (lrc ! i) \<le> q \<longleftrightarrow> int i \<le> r)"
        using "1.IH"(1)[OF True g[unfolded mid_def] le[unfolded mid_def] srt] mid "1.prems" below
        by (simp add: mid_def)
      then show ?thesis
        using True g le by (subst current_line_index_loop.simps) (simp add: mid_def)
    next
      case gt: False
      have above: "\<forall>i. mid - 1 < int i \<and> i < length lrc \<longrightarrow> \<not> t (lrc ! i) \<le> q"
      proof (intro allI impI)
        fix i assume a: "mid - 1 < int i \<and> i < length lrc"
        then have "nat mid \<le> i" by linarith
        then have "t (lrc ! nat mid) \<le> t (lrc ! i)" using a by (intro mono) simp_all
        with gt show "\<not> t (lrc ! i) \<le> q" by simp
      qed
      have "\<exists>r. current_line_index_loop lrc q lo (mid - 1) ans = Inr r \<and> - 1 \<le> r \<and> r < int (length lrc) \<and>
              (\<forall>i < length lrc. t (lrc ! i) \<le> q \<longleftrightarrow> int i \<le> r)"
        using "1.IH"(2)[OF True g[unfolded mid_def] gt[unfolded mid_def] srt] mid "1.prems" above
        by (simp add: mid_def)
      then show ?thesis
        using True g gt by (subst current_line_index_loop.simps) (simp add: mid_def)
    qed
  qed
qed

lemma current_line_index_sorted:
  assumes "sorted (map t lrc)"
  shows "\<exists>r. current_line_index lrc q = Inr r \<and> - 1 \<le> r \<and> r < int (length lrc) \<and>
           (\<forall>i < length lrc. t (lrc ! i) \<le> q \<longleftrightarrow> int i \<le> r)"
proof (cases "lrc = []")
  case True
  then show ?thesis by (simp add: current_line_index_def)
next
  case False
  have "\<exists>r. current_line_index_loop lrc q 0 (int (length lrc) - 1) (- 1) = Inr r \<and>
          - 1 \<le> r \<and> r < int (length lrc) \<and> (\<forall>i < length lrc. t (lrc ! i) \<le> q \<longleftrightarrow> int i \<le> r)"
    using assms by (intro current_line_index_loop_sorted) simp_all
  with False show ?thesis by (simp add: current_line_index_def)
qed

lemma current_line_index_range:
  "\<exists>r. current_line_index lrc q = Inr r \<and> - 1 \<le> r \<and> r < int (length lrc)"
proof (cases "lrc = []")
  case True
  then show ?thesis by (simp add: current_line_index_def)
next
  case False
  have "\<exists>r. current_line_index_loop lrc q 0 (int (length lrc) - 1) (- 1) = Inr r \<and>
          - 1 \<le> r \<and> r < int (length lrc)"
    by (intro current_line_index_loop_range) simp_all
  with False show ?thesis by (simp add: current_line_index_def)
qed

text \<open>
  C1. On a timeline sorted by timestamp, \<^verbatim>\<open>current_line_index\<close> returns the greatest
  index whose timestamp is at most the query time, and \<open>- 1\<close> when there is none: so on
  the empty timeline, and for a query time before the first entry.
\<close>

theorem current_line_index_greatest:
  assumes "sorted (map t lrc)"
  shows "\<exists>r. current_line_index lrc q = Inr r \<and>
           ((r = - 1 \<and> (\<forall>i < length lrc. \<not> t (lrc ! i) \<le> q)) \<or>
            (0 \<le> r \<and> nat r < length lrc \<and> t (lrc ! nat r) \<le> q \<and>
             (\<forall>i < length lrc. t (lrc ! i) \<le> q \<longrightarrow> int i \<le> r))) \<and>
           (lrc = [] \<longrightarrow> r = - 1) \<and>
           (lrc \<noteq> [] \<and> q < t (hd lrc) \<longrightarrow> r = - 1)"
proof -
  obtain r where r: "current_line_index lrc q = Inr r" "- 1 \<le> r" "r < int (length lrc)"
    and iff: "\<forall>i < length lrc. t (lrc ! i) \<le> q \<longleftrightarrow> int i \<le> r"
    using current_line_index_sorted[OF assms] by blast
  have main: "(r = - 1 \<and> (\<forall>i < length lrc. \<not> t (lrc ! i) \<le> q)) \<or>
            (0 \<le> r \<and> nat r < length lrc \<and> t (lrc ! nat r) \<le> q \<and>
             (\<forall>i < length lrc. t (lrc ! i) \<le> q \<longrightarrow> int i \<le> r))"
  proof (cases "r = - 1")
    case True
    with iff show ?thesis by simp
  next
    case False
    with r have nn: "0 \<le> r" "nat r < length lrc" by simp_all
    with iff have "t (lrc ! nat r) \<le> q" by simp
    with nn iff show ?thesis by simp
  qed
  have empty: "lrc = [] \<longrightarrow> r = - 1"
    using r by auto
  have before: "lrc \<noteq> [] \<and> q < t (hd lrc) \<longrightarrow> r = - 1"
  proof
    assume a: "lrc \<noteq> [] \<and> q < t (hd lrc)"
    then have "hd lrc = lrc ! 0"
      by (simp add: hd_conv_nth)
    with a have "0 < length lrc" "\<not> t (lrc ! 0) \<le> q"
      by auto
    with iff have "\<not> int 0 \<le> r" by blast
    with r show "r = - 1" by simp
  qed
  from r(1) main empty before show ?thesis by blast
qed

theorem current_line_index_greatest_witness:
  "sorted (map t [\<lparr>t = 0, text' = ''la la''\<rparr>, \<lparr>t = 4, text' = ''second line''\<rparr>]) \<and>
   current_line_index [\<lparr>t = 0, text' = ''la la''\<rparr>, \<lparr>t = 4, text' = ''second line''\<rparr>] (9 / 2) = Inr 1 \<and>
   current_line_index [\<lparr>t = 0, text' = ''la la''\<rparr>, \<lparr>t = 4, text' = ''second line''\<rparr>] (- 1) = Inr (- 1)"
proof -
  have s: "sorted (map t [\<lparr>t = 0, text' = ''la la''\<rparr>, \<lparr>t = 4, text' = ''second line''\<rparr>])"
    by simp
  show ?thesis
    using s current_line_index_greatest[OF s, of "9 / 2"]
    by (simp add: current_line_index_def current_line_index_loop.simps getitem_def)
qed

text \<open>
  C10. On every list of entries, sorted or not, \<^verbatim>\<open>current_line_index\<close> returns (the
  loop terminates and no read raises) an integer from \<open>- 1\<close> to \<open>length lrc - 1\<close>; so the
  coordinator's read \<^verbatim>\<open>lrc[idx]\<close>, done when \<open>idx \<ge> 0\<close>, is in bounds.
\<close>

theorem current_line_index_in_bounds:
  "\<exists>r. current_line_index lrc q = Inr r \<and> - 1 \<le> r \<and> r \<le> int (length lrc) - 1 \<and>
       (0 \<le> r \<longrightarrow> getitem lrc r = Inr (lrc ! nat r) \<and>
                  synced_line_now lrc names q = Inr (text' (lrc ! nat r))) \<and>
       (r < 0 \<longrightarrow> synced_line_now lrc names q = Inr names)"
proof -
  obtain r where r: "current_line_index lrc q = Inr r" "- 1 \<le> r" "r < int (length lrc)"
    using current_line_index_range by blast
  have "getitem lrc r = Inr (lrc ! nat r)" if "0 \<le> r"
    using that r by (intro getitem_in_range)
  with r show ?thesis
    by (auto simp: synced_line_now_def)
qed

theorem current_line_index_in_bounds_witness:
  "current_line_index [\<lparr>t = 7, text' = ''c''\<rparr>, \<lparr>t = 2, text' = ''a''\<rparr>, \<lparr>t = 5, text' = ''b''\<rparr>] 3 = Inr 1 \<and>
   synced_line_now [\<lparr>t = 7, text' = ''c''\<rparr>, \<lparr>t = 2, text' = ''a''\<rparr>, \<lparr>t = 5, text' = ''b''\<rparr>] ''artist'' 3 = Inr ''a''"
  using current_line_index_in_bounds
    [of "[\<lparr>t = 7, text' = ''c''\<rparr>, \<lparr>t = 2, text' = ''a''\<rparr>, \<lparr>t = 5, text' = ''b''\<rparr>]" 3 "''artist''"]
  by (simp add: synced_line_now_def current_line_index_def current_line_index_loop.simps getitem_def)

section \<open>Latest-value publishing\<close>

lemma drain_items: "drain q = q\<lparr>items := []\<rparr>"
proof (induction q rule: drain.induct)
  case (1 q)
  show ?case
  proof (cases "items q")
    case Nil
    then show ?thesis
      by (subst drain.simps) (simp add: get_nowait_def)
  next
    case (Cons x xs)
    then have "drain q = drain (q\<lparr>items := xs\<rparr>)"
      by (subst drain.simps) (simp add: get_nowait_def)
    also have "\<dots> = q\<lparr>items := xs\<rparr>\<lparr>items := []\<rparr>"
      using Cons by (intro "1.IH") (simp_all add: get_nowait_def)
    finally show ?thesis by simp
  qed
qed

lemma put_after_drain: "put_nowait (drain q) v = Inr (q\<lparr>items := [v]\<rparr>)"
  by (simp add: drain_items put_nowait_def)

lemma Poller_publish_items: "Poller_publish q v = q\<lparr>items := [v]\<rparr>"
  by (simp add: Poller_publish_def put_after_drain)

lemma Fetcher_publish_items: "Fetcher_publish q v = q\<lparr>items := [v]\<rparr>"
  by (simp add: Fetcher_publish_def put_after_drain)

text \<open>
  C4. Publishing on the snapshot channel (\<^verbatim>\<open>Poller.run\<close>) and on the assets channel
  (\<^verbatim>\<open>Fetcher.run\<close>) drains the queue and then puts the new value: from any state of
  the queue, after one publish the queue holds exactly the published value; after \<open>v1\<close>
  and then \<open>v2\<close> with no pull between, it holds \<open>v2\<close> alone, one pull returns \<open>v2\<close>
  and the next finds the queue empty.
\<close>

theorem latest_value_channels:
  "items (Poller_publish q v) = [v] \<and>
   items (Poller_publish (Poller_publish q v1) v2) = [v2] \<and>
   (\<exists>q1. get_nowait (Poller_publish (Poller_publish q v1) v2) = Inr (v2, q1) \<and>
         items q1 = [] \<and> get_nowait q1 = Inl QueueEmpty) \<and>
   items (Fetcher_publish p a) = [a] \<and>
   items (Fetcher_publish (Fetcher_publish p a1) a2) = [a2] \<and>
   (\<exists>p1. get_nowait (Fetcher_publish (Fetcher_publish p a1) a2) = Inr (a2, p1) \<and>
         items p1 = [] \<and> get_nowait p1 = Inl QueueEmpty)"
  by (simp add: Poller_publish_items Fetcher_publish_items get_nowait_def)

theorem latest_value_channels_witness:
  "items (Poller_publish \<lparr>items = [1, 2 :: nat], maxsize = 2\<rparr> 3) = [3] \<and>
   get_nowait (Fetcher_publish (Fetcher_publish \<lparr>items = [0 :: nat], maxsize = 1\<rparr> 1) 2)
     = Inr (2, \<lparr>items = [], maxsize = 1\<rparr>)"
  using latest_value_channels[of "\<lparr>items = [1, 2 :: nat], maxsize = 2\<rparr>" 3 1 2 "\<lparr>items = [0 :: nat], maxsize = 1\<rparr>" 0 1 2]
  by (simp add: Poller_publish_items Fetcher_publish_items get_nowait_def)

section \<open>Extrapolated progress\<close>

lemma py_trunc_nonneg: "0 \<le> x \<Longrightarrow> py_trunc x = \<lfloor>x\<rfloor>"
  by (simp add: py_trunc_def)

text \<open>
  C3. For every snapshot the poller builds, read at \<open>ts0\<close>, and every later time \<open>now\<close>:
  with a track present and playing, the displayed progress is the snapshot's progress
  plus the milliseconds elapsed since \<open>ts0\<close>, rounded down (less than one millisecond
  from the exact sum); paused or with no track, it is the snapshot's progress unchanged.
  A playing snapshot of progress 10000 read 2.5 seconds later displays 12500.
\<close>

theorem progress_extrapolation:
  assumes "ts0 \<le> now"
  shows "(item (Poller_snapshot pb ts0) \<noteq> None \<and> is_playing (Poller_snapshot pb ts0) \<longrightarrow>
            progress_now (Poller_snapshot pb ts0) now
              = progress_ms (Poller_snapshot pb ts0) + \<lfloor>(now - ts0) * 1000\<rfloor> \<and>
            \<bar>real_of_int (progress_now (Poller_snapshot pb ts0) now)
               - (real_of_int (progress_ms (Poller_snapshot pb ts0)) + (now - ts0) * 1000)\<bar> < 1) \<and>
         (\<not> (item (Poller_snapshot pb ts0) \<noteq> None \<and> is_playing (Poller_snapshot pb ts0)) \<longrightarrow>
            progress_now (Poller_snapshot pb ts0) now = progress_ms (Poller_snapshot pb ts0)) \<and>
         progress_now
           (Poller_snapshot (Some \<lparr>pb_item = Some it, pb_is_playing = True, pb_progress_ms = Some 10000\<rparr>) ts0)
           (ts0 + 5 / 2) = 12500"
proof -
  have ts: "ts (Poller_snapshot pb ts0) = ts0"
    by (simp add: Poller_snapshot_def split: option.splits)
  have nn: "0 \<le> (now - ts0) * 1000"
    using assms by simp
  have absent: "progress_ms (Poller_snapshot pb ts0) = 0" if "item (Poller_snapshot pb ts0) = None"
    using that by (simp add: Poller_snapshot_def split: option.splits)
  have playing: "progress_now (Poller_snapshot pb ts0) now
              = progress_ms (Poller_snapshot pb ts0) + \<lfloor>(now - ts0) * 1000\<rfloor>"
    if "item (Poller_snapshot pb ts0) \<noteq> None \<and> is_playing (Poller_snapshot pb ts0)"
    using that nn by (simp add: progress_now_def ts py_trunc_nonneg)
  have close: "\<bar>real_of_int (p + \<lfloor>x\<rfloor>) - (real_of_int p + x)\<bar> < 1" for p :: int and x :: real
    by linarith
  have other: "progress_now (Poller_snapshot pb ts0) now = progress_ms (Poller_snapshot pb ts0)"
    if "\<not> (item (Poller_snapshot pb ts0) \<noteq> None \<and> is_playing (Poller_snapshot pb ts0))"
    using that absent by (auto simp: progress_now_def)
  have example: "progress_now
           (Poller_snapshot (Some \<lparr>pb_item = Some it, pb_is_playing = True, pb_progress_ms = Some 10000\<rparr>) ts0)
           (ts0 + 5 / 2) = 12500"
    by (simp add: Poller_snapshot_def progress_now_def py_trunc_def)
  from playing close other example show ?thesis
    by (metis (no_types, lifting))
qed

theorem progress_extrapolation_witness:
  "(100::real) \<le> 205 / 2 \<and>
   progress_now
     (Poller_snapshot (Some \<lparr>pb_item = Some \<lparr>id' = Some ''A'', name = ''a'', artists = [], images = []\<rparr>,
                             pb_is_playing = True, pb_progress_ms = Some 10000\<rparr>) 100) (205 / 2) = 12500 \<and>
   progress_now
     (Poller_snapshot (Some \<lparr>pb_item = Some \<lparr>id' = Some ''A'', name = ''a'', artists = [], images = []\<rparr>,
                             pb_is_playing = False, pb_progress_ms = Some 10000\<rparr>) 100) (205 / 2) = 10000 \<and>
   progress_now (Poller_snapshot None 100) (205 / 2) = 0"
proof -
  have h: "(100::real) \<le> 205 / 2" by simp
  show ?thesis
    using h progress_extrapolation[OF h,
      of "Some \<lparr>pb_item = Some \<lparr>id' = Some ''A'', name = ''a'', artists = [], images = []\<rparr>,
                 pb_is_playing = True, pb_progress_ms = Some 10000\<rparr>"]
    by (simp add: Poller_snapshot_def progress_now_def py_trunc_def)
qed

section \<open>Track change in the coordinator\<close>

lemma track_change_cases:
  "track_change snap c =
     (if truthy (snapshot_tid snap) \<and> snapshot_tid snap \<noteq> last_seen_tid c
      then (item snap, c\<lparr>last_seen_tid := snapshot_tid snap,
                         req_q := (req_q c)\<lparr>items := [the (item snap)]\<rparr>\<rparr>)
      else (None, c))"
  by (cases "item snap")
    (simp_all add: track_change_def snapshot_tid_def truthy_def put_after_drain Let_def)

text \<open>
  C5, amended. At an iteration the coordinator enqueues an asset request exactly when
  the snapshot carries a track whose id is present, not empty and different from the
  last-seen id; the request is that track, it is then the only one pending, and the
  last-seen id becomes its id. Otherwise the coordinator's state is unchanged. For the
  snapshots of tracks A, A, B (ids present, not empty, distinct): when A is the last-seen
  id, one request is issued, at B; from the start state, where no id has been seen, a
  request is issued at the first A and at B.
\<close>

theorem track_change_request:
  "(fst (track_change snap c) \<noteq> None \<longleftrightarrow>
      truthy (snapshot_tid snap) \<and> snapshot_tid snap \<noteq> last_seen_tid c) \<and>
   (fst (track_change snap c) \<noteq> None \<longrightarrow>
      fst (track_change snap c) = item snap \<and>
      items (req_q (snd (track_change snap c))) = [the (item snap)] \<and>
      last_seen_tid (snd (track_change snap c)) = snapshot_tid snap) \<and>
   (fst (track_change snap c) = None \<longrightarrow> snd (track_change snap c) = c) \<and>
   (truthy (id' A) \<and> truthy (id' B) \<and> id' A \<noteq> id' B \<and>
    item s1 = Some A \<and> item s2 = Some A \<and> item s3 = Some B \<longrightarrow>
      (last_seen_tid c = id' A \<longrightarrow> fst (run_snapshots [s1, s2, s3] c) = [None, None, Some B]) \<and>
      (last_seen_tid c = None \<longrightarrow> fst (run_snapshots [s1, s2, s3] c) = [Some A, None, Some B]))"
proof -
  have present: "item snap \<noteq> None" if "truthy (snapshot_tid snap)"
    using that by (auto simp: snapshot_tid_def truthy_def split: option.splits)
  have one: "fst (track_change snap c) \<noteq> None \<longleftrightarrow>
      truthy (snapshot_tid snap) \<and> snapshot_tid snap \<noteq> last_seen_tid c"
    using present by (auto simp: track_change_cases)
  have two: "fst (track_change snap c) \<noteq> None \<longrightarrow>
      fst (track_change snap c) = item snap \<and>
      items (req_q (snd (track_change snap c))) = [the (item snap)] \<and>
      last_seen_tid (snd (track_change snap c)) = snapshot_tid snap"
    by (simp add: track_change_cases)
  have three: "fst (track_change snap c) = None \<longrightarrow> snd (track_change snap c) = c"
    using present by (auto simp: track_change_cases)
  have four: "truthy (id' A) \<and> truthy (id' B) \<and> id' A \<noteq> id' B \<and>
    item s1 = Some A \<and> item s2 = Some A \<and> item s3 = Some B \<longrightarrow>
      (last_seen_tid c = id' A \<longrightarrow> fst (run_snapshots [s1, s2, s3] c) = [None, None, Some B]) \<and>
      (last_seen_tid c = None \<longrightarrow> fst (run_snapshots [s1, s2, s3] c) = [Some A, None, Some B])"
    by (auto simp: track_change_cases snapshot_tid_def truthy_def split: option.splits)
  from one two three four show ?thesis by blast
qed

theorem track_change_request_witness:
  "fst (track_change \<lparr>item = Some \<lparr>id' = Some ''B'', name = ''b'', artists = [], images = []\<rparr>,
                      is_playing = True, progress_ms = 0, ts = 5\<rparr>
         \<lparr>last_seen_tid = Some ''A'', req_q = \<lparr>items = [], maxsize = 1\<rparr>\<rparr>)
     = Some \<lparr>id' = Some ''B'', name = ''b'', artists = [], images = []\<rparr> \<and>
   fst (run_snapshots
     [\<lparr>item = Some \<lparr>id' = Some ''A'', name = ''a'', artists = [], images = []\<rparr>,
       is_playing = True, progress_ms = 0, ts = 0\<rparr>,
      \<lparr>item = Some \<lparr>id' = Some ''A'', name = ''a'', artists = [], images = []\<rparr>,
       is_playing = True, progress_ms = 5000, ts = 5\<rparr>,
      \<lparr>item = Some \<lparr>id' = Some ''B'', name = ''b'', artists = [], images = []\<rparr>,
       is_playing = True, progress_ms = 0, ts = 51 / 10\<rparr>]
     \<lparr>last_seen_tid = Some ''A'', req_q = \<lparr>items = [], maxsize = 1\<rparr>\<rparr>)
   = [None, None, Some \<lparr>id' = Some ''B'', name = ''b'', artists = [], images = []\<rparr>]"
  using track_change_request
    [of "\<lparr>item = Some \<lparr>id' = Some ''B'', name = ''b'', artists = [], images = []\<rparr>,
                      is_playing = True, progress_ms = 0, ts = 5\<rparr>"
        "\<lparr>last_seen_tid = Some ''A'', req_q = \<lparr>items = [], maxsize = 1\<rparr>\<rparr>"]
  by (simp add: track_change_cases snapshot_tid_def truthy_def)

text \<open>
  The claim as stated fails where nothing is playing: the snapshot's id (none) differs
  from the last-seen id, yet no request is enqueued and the last-seen id stays. And from
  the start state the sequence A, A, B issues two requests.
\<close>

theorem track_change_request_counterexample:
  "snapshot_tid \<lparr>item = None, is_playing = False, progress_ms = 0, ts = 0\<rparr>
     \<noteq> last_seen_tid \<lparr>last_seen_tid = Some ''A'', req_q = \<lparr>items = [], maxsize = 1\<rparr>\<rparr> \<and>
   track_change \<lparr>item = None, is_playing = False, progress_ms = 0, ts = 0\<rparr>
       \<lparr>last_seen_tid = Some ''A'', req_q = \<lparr>items = [], maxsize = 1\<rparr>\<rparr>
     = (None, \<lparr>last_seen_tid = Some ''A'', req_q = \<lparr>items = [], maxsize = 1\<rparr>\<rparr>) \<and>
   fst (run_snapshots
     [\<lparr>item = Some \<lparr>id' = Some ''A'', name = ''a'', artists = [], images = []\<rparr>,
       is_playing = True, progress_ms = 0, ts = 0\<rparr>,
      \<lparr>item = Some \<lparr>id' = Some ''A'', name = ''a'', artists = [], images = []\<rparr>,
       is_playing = True, progress_ms = 5000, ts = 5\<rparr>,
      \<lparr>item = Some \<lparr>id' = Some ''B'', name = ''b'', artists = [], images = []\<rparr>,
       is_playing = True, progress_ms = 0, ts = 51 / 10\<rparr>]
     \<lparr>last_seen_tid = None, req_q = \<lparr>items = [], maxsize = 1\<rparr>\<rparr>)
   = [Some \<lparr>id' = Some ''A'', name = ''a'', artists = [], images = []\<rparr>, None,
      Some \<lparr>id' = Some ''B'', name = ''b'', artists = [], images = []\<rparr>]"
  by (simp add: track_change_cases snapshot_tid_def truthy_def)

section \<open>Choice of the album image\<close>

lemma min_loop_all_readable:
  "\<forall>y \<in> set ys. \<exists>k. key y = Inr k \<Longrightarrow> key best = Inr bk \<Longrightarrow>
   \<exists>b kb. min_loop key ys best bk = Inr b \<and> (b = best \<or> b \<in> set ys) \<and> key b = Inr kb \<and> kb \<le> bk \<and>
          (\<forall>y \<in> set ys. \<forall>k. key y = Inr k \<longrightarrow> kb \<le> k)"
proof (induction ys arbitrary: best bk)
  case Nil
  then show ?case by simp
next
  case (Cons y ys)
  then obtain k where k: "key y = Inr k" by auto
  have rest: "\<forall>y \<in> set ys. \<exists>k. key y = Inr k" using Cons.prems by simp
  show ?case
  proof (cases "k < bk")
    case True
    from Cons.IH[OF rest k] obtain b kb where
      "min_loop key ys y k = Inr b" "b = y \<or> b \<in> set ys" "key b = Inr kb" "kb \<le> k"
      "\<forall>y \<in> set ys. \<forall>k. key y = Inr k \<longrightarrow> kb \<le> k" by blast
    with True k show ?thesis by auto
  next
    case False
    from Cons.IH[OF rest Cons.prems(2)] obtain b kb where
      "min_loop key ys best bk = Inr b" "b = best \<or> b \<in> set ys" "key b = Inr kb" "kb \<le> bk"
      "\<forall>y \<in> set ys. \<forall>k. key y = Inr k \<longrightarrow> kb \<le> k" by blast
    with False k show ?thesis by auto
  qed
qed

lemma min_loop_unreadable:
  "\<exists>y \<in> set ys. \<exists>e. key y = Inl e \<Longrightarrow> \<exists>e. min_loop key ys best bk = Inl e"
proof (induction ys arbitrary: best bk)
  case Nil
  then show ?case by simp
next
  case (Cons y ys)
  show ?case
  proof (cases "key y")
    case (Inl e)
    then show ?thesis by simp
  next
    case (Inr k)
    with Cons.prems have "\<exists>y \<in> set ys. \<exists>e. key y = Inl e" by auto
    from Cons.IH[OF this] have "\<exists>e. min_loop key ys y k = Inl e" "\<exists>e. min_loop key ys best bk = Inl e"
      by blast+
    with Inr show ?thesis by simp
  qed
qed

lemma width_distance_readable:
  "width im \<noteq> WidthNull \<Longrightarrow> width_distance target im = Inr \<bar>width_or_default im - target\<bar>"
  by (cases "width im") (simp_all add: width_distance_def width_or_default_def)

text \<open>
  C8, amended. From a non-empty list of image variants whose widths are integers (an
  absent width counts as 64), the fetcher takes a variant whose width is closest to
  \<open>max 32 album_side\<close>: no variant of the list is closer. When some width is null, it takes
  the last variant.
\<close>

theorem Fetcher_image_closest:
  assumes "imgs \<noteq> []"
  shows "((\<forall>im \<in> set imgs. width im \<noteq> WidthNull) \<longrightarrow>
            (\<exists>im \<in> set imgs. Fetcher_image album_side imgs = Inr (Some im) \<and>
               (\<forall>im' \<in> set imgs. \<bar>width_or_default im - max 32 album_side\<bar>
                                   \<le> \<bar>width_or_default im' - max 32 album_side\<bar>))) \<and>
         ((\<exists>im \<in> set imgs. width im = WidthNull) \<longrightarrow>
            Fetcher_image album_side imgs = Inr (Some (last imgs)))"
proof (intro conjI impI)
  assume ok: "\<forall>im \<in> set imgs. width im \<noteq> WidthNull"
  let ?key = "width_distance (max 32 album_side)"
  have keys: "?key im = Inr \<bar>width_or_default im - max 32 album_side\<bar>" if "im \<in> set imgs" for im
    using that ok by (simp add: width_distance_readable)
  from assms obtain x ys where imgs: "imgs = x # ys" by (cases imgs) auto
  have "\<forall>y \<in> set ys. \<exists>k. ?key y = Inr k" using keys imgs by simp
  moreover have "?key x = Inr \<bar>width_or_default x - max 32 album_side\<bar>" using keys imgs by simp
  ultimately obtain b kb where b: "min_loop ?key ys x \<bar>width_or_default x - max 32 album_side\<bar> = Inr b"
    "b = x \<or> b \<in> set ys" "?key b = Inr kb" "kb \<le> \<bar>width_or_default x - max 32 album_side\<bar>"
    "\<forall>y \<in> set ys. \<forall>k. ?key y = Inr k \<longrightarrow> kb \<le> k"
    using min_loop_all_readable[of ys ?key x] by blast
  have bin: "b \<in> set imgs" using b(2) imgs by auto
  have kb: "kb = \<bar>width_or_default b - max 32 album_side\<bar>"
    using keys[OF bin] b(3) by simp
  have "Fetcher_image album_side imgs = Inr (Some b)"
    using imgs b(1) keys[of x] by (simp add: Fetcher_image_def py_min_def)
  moreover have "\<forall>im' \<in> set imgs. \<bar>width_or_default b - max 32 album_side\<bar>
                                   \<le> \<bar>width_or_default im' - max 32 album_side\<bar>"
    using b(4,5) keys imgs kb by auto
  ultimately show "\<exists>im \<in> set imgs. Fetcher_image album_side imgs = Inr (Some im) \<and>
               (\<forall>im' \<in> set imgs. \<bar>width_or_default im - max 32 album_side\<bar>
                                   \<le> \<bar>width_or_default im' - max 32 album_side\<bar>)"
    using bin by blast
next
  assume bad: "\<exists>im \<in> set imgs. width im = WidthNull"
  let ?key = "width_distance (max 32 album_side)"
  have "\<exists>e. py_min ?key imgs = Inl e"
  proof (cases imgs)
    case Nil
    with assms show ?thesis by simp
  next
    case (Cons x ys)
    show ?thesis
    proof (cases "width x = WidthNull")
      case True
      then show ?thesis using Cons by (simp add: py_min_def width_distance_def)
    next
      case False
      with bad Cons obtain y where "y \<in> set ys" "width y = WidthNull"
        by auto
      then have "\<exists>y \<in> set ys. \<exists>e. ?key y = Inl e"
        by (intro bexI[of _ y]) (simp_all add: width_distance_def)
      from min_loop_unreadable[OF this] show ?thesis
        using Cons by (auto simp: py_min_def split: sum.splits)
    qed
  qed
  moreover have "getitem imgs (- 1) = Inr (last imgs)"
    using assms by (cases imgs rule: rev_cases) (simp_all add: getitem_def)
  ultimately show "Fetcher_image album_side imgs = Inr (Some (last imgs))"
    using assms by (auto simp: Fetcher_image_def)
qed

theorem Fetcher_image_closest_witness:
  "[\<lparr>width = WidthInt 640, url = Some ''big''\<rparr>, \<lparr>width = WidthInt 64, url = Some ''small''\<rparr>] \<noteq> [] \<and>
   Fetcher_image 28 [\<lparr>width = WidthInt 640, url = Some ''big''\<rparr>, \<lparr>width = WidthInt 64, url = Some ''small''\<rparr>]
     = Inr (Some \<lparr>width = WidthInt 64, url = Some ''small''\<rparr>)"
proof -
  have ne: "[\<lparr>width = WidthInt 640, url = Some ''big''\<rparr>, \<lparr>width = WidthInt 64, url = Some ''small''\<rparr>] \<noteq> []"
    by simp
  show ?thesis
    using Fetcher_image_closest[OF ne, of 28]
    by (simp add: Fetcher_image_def py_min_def width_distance_def)
qed

text \<open>
  The target is not the album side the image is resized to: with the side 28 and widths
  30 and 27, the variant of width 30 is taken (closest to 32), though 27 is closer to 28.
\<close>

theorem Fetcher_image_closest_counterexample:
  "Fetcher_image 28 [\<lparr>width = WidthInt 30, url = Some ''u30''\<rparr>, \<lparr>width = WidthInt 27, url = Some ''u27''\<rparr>]
     = Inr (Some \<lparr>width = WidthInt 30, url = Some ''u30''\<rparr>) \<and>
   \<not> \<bar>width_or_default \<lparr>width = WidthInt 30, url = Some ''u30''\<rparr> - 28\<bar>
       \<le> \<bar>width_or_default \<lparr>width = WidthInt 27, url = Some ''u27''\<rparr> - 28\<bar>"
  by (simp add: Fetcher_image_def py_min_def width_distance_def width_or_default_def)

section \<open>The marquee window\<close>








section \<open>The parser of timed lyrics\<close>




















subsection \<open>Lines of leading time tags\<close>










end
